theory Spec2Isabelle
  imports Main
begin

section \<open>JavaScript values, responses and exceptions\<close>

text \<open>
  The values that travel over the bus. A response is whatever the bus hands to
  \<open>handleResponse\<close>: an object \<open>{done, value}\<close> whose \<open>done\<close> property may be a
  getter that throws (src/test.js, lines 72-75), or a primitive (an emit without a
  payload passes \<open>undefined\<close>).
\<close>

datatype jsval = JUndefined | JNull | JBool bool | JNum int | JStr string

text \<open>JavaScript truthiness, as used by \<open>if (response.done)\<close> and \<open>while (!step.done)\<close>.\<close>

fun truthy :: "jsval \<Rightarrow> bool" where
  "truthy JUndefined = False"
| "truthy JNull = False"
| "truthy (JBool b) = b"
| "truthy (JNum n) = (n \<noteq> 0)"
| "truthy (JStr s) = (s \<noteq> [])"

text \<open>
  What a \<open>throw\<close> carries: an \<open>Error\<close> with its message, the engine's \<open>TypeError\<close>
  (tagged with the property whose access failed), or any other thrown value.
\<close>

datatype exn = Error string | TypeError string | Thrown jsval

datatype done_field = DoneValue jsval | DoneThrows exn

datatype response = Prim jsval | Obj done_field jsval

text \<open>
  \<open>response.done\<close>: a property read on \<open>undefined\<close> or \<open>null\<close> throws a TypeError, on
  any other primitive it is \<open>undefined\<close>, on an object it runs the getter.
\<close>

fun get_done :: "response \<Rightarrow> exn + jsval" where
  "get_done (Prim JUndefined) = Inl (TypeError ''done'')"
| "get_done (Prim JNull) = Inl (TypeError ''done'')"
| "get_done (Prim v) = Inr JUndefined"
| "get_done (Obj (DoneValue v) x) = Inr v"
| "get_done (Obj (DoneThrows e) x) = Inl e"

text \<open>\<open>step.value\<close>, read by the consumer loop of src/test.js.\<close>

fun get_value :: "response \<Rightarrow> exn + jsval" where
  "get_value (Prim JUndefined) = Inl (TypeError ''value'')"
| "get_value (Prim JNull) = Inl (TypeError ''value'')"
| "get_value (Prim v) = Inr JUndefined"
| "get_value (Obj d x) = Inr x"

text \<open>How a call completes: it returns, or it throws.\<close>

datatype 'a completion = Return 'a | Throw exn

section \<open>The world: adapter, bus, promises\<close>

text \<open>
  A promise is pending, resolved with a response, or rejected. The promises live in a
  store indexed by their identity; \<open>new Promise\<close> appends a pending one. A holder
  \<open>{resolve, reject, promise}\<close> (src/index.js, lines 107-111) is the identity of its
  promise: \<open>resolve\<close> and \<open>reject\<close> are the two ways of settling that promise.
\<close>

datatype pstate = Pending | Resolved response | Rejected exn

text \<open>
  The functions subscribed on the bus: the adapter's bound \<open>handleResponse\<close>
  (src/index.js, line 50) and the responder of src/test.js, lines 37-42, which on
  each call emits the next response on the event it names.
\<close>

datatype listener = BoundHandleResponse | Responder string

text \<open>
  The calls the adapter makes on its collaborators, in the order it makes them:
  \<open>emitter.emit\<close>, \<open>emitter.removeListener\<close>, and \<open>resolve\<close>/\<open>reject\<close> of a holder.
\<close>

datatype call = Emit string | RemoveListener string | Resolve nat response | Reject nat exn

text \<open>
  The fields of \<open>Drain\<close> (src/index.js, lines 44-51) are \<open>d_request\<close>, \<open>d_response\<close>,
  \<open>d_done\<close>, \<open>d_current\<close> and \<open>d_waiting\<close>; \<open>listeners\<close> is the shared emitter, as the
  registrations \<open>(event name, function)\<close> in the order they were made; \<open>promises\<close> is
  the promise store; \<open>responses\<close> is the array the responder of src/test.js shifts;
  \<open>calls\<close> logs the adapter's calls on its collaborators.
\<close>

record world =
  d_request :: string
  d_response :: string
  d_done :: bool
  d_current :: "nat option"
  d_waiting :: bool
  listeners :: "(string \<times> listener) list"
  promises :: "pstate list"
  responses :: "string list"
  calls :: "call list"

subsection \<open>The bus\<close>

text \<open>
  Modelled from the spec: the bus is Node's \<open>EventEmitter\<close>, which this repository
  uses and does not contain. Section 6 of the spec gives its contract: \<open>on\<close>
  registers a handler, \<open>removeListener\<close> removes a registered handler and tolerates
  one that is not registered, \<open>emit\<close> calls the handlers of the event synchronously,
  in registration order, and \<open>listenerCount\<close> counts them.
\<close>

definition on :: "string \<Rightarrow> listener \<Rightarrow> (string \<times> listener) list \<Rightarrow> (string \<times> listener) list" where
  "on name l ls = ls @ [(name, l)]"

definition removeListener :: "string \<Rightarrow> listener \<Rightarrow> (string \<times> listener) list \<Rightarrow> (string \<times> listener) list" where
  "removeListener name l ls = rev (remove1 (name, l) (rev ls))"

definition listeners_for :: "string \<Rightarrow> (string \<times> listener) list \<Rightarrow> listener list" where
  "listeners_for name ls = map snd (filter (\<lambda>p. fst p = name) ls)"

definition listenerCount :: "string \<Rightarrow> (string \<times> listener) list \<Rightarrow> nat" where
  "listenerCount name ls = length (listeners_for name ls)"

subsection \<open>Promises\<close>

definition new_Promise :: "world \<Rightarrow> nat \<times> world" where
  "new_Promise w = (length (promises w), w\<lparr>promises := promises w @ [Pending]\<rparr>)"

definition Promise_resolve :: "response \<Rightarrow> world \<Rightarrow> nat \<times> world" where
  "Promise_resolve r w = (length (promises w), w\<lparr>promises := promises w @ [Resolved r]\<rparr>)"

definition promise_state :: "world \<Rightarrow> nat \<Rightarrow> pstate" where
  "promise_state w p = (if p < length (promises w) then promises w ! p else Pending)"

text \<open>Settling a promise that is already settled changes nothing.\<close>

definition settle :: "nat \<Rightarrow> pstate \<Rightarrow> pstate list \<Rightarrow> pstate list" where
  "settle p s ps = (if p < length ps \<and> ps ! p = Pending then ps[p := s] else ps)"

definition resolve :: "nat \<Rightarrow> response \<Rightarrow> world \<Rightarrow> world" where
  "resolve h r w = w\<lparr>promises := settle h (Resolved r) (promises w), calls := calls w @ [Resolve h r]\<rparr>"

definition reject :: "nat \<Rightarrow> exn \<Rightarrow> world \<Rightarrow> world" where
  "reject h e w = w\<lparr>promises := settle h (Rejected e) (promises w), calls := calls w @ [Reject h e]\<rparr>"

section \<open>The adapter (src/index.js)\<close>

text \<open>
  The constructor, lines 43-53. The emitter it is given may already have handlers:
  \<open>rs\<close> lists them as (event, event the responder answers on). They are responders:
  the adapter's bound function does not exist before the constructor makes it.
\<close>

definition new_Drain :: "(string \<times> string) list \<Rightarrow> string list \<Rightarrow> string \<Rightarrow> string \<Rightarrow> world" where
  "new_Drain rs xs req resp =
     \<lparr>d_request = req, d_response = resp, d_done = False, d_current = None, d_waiting = False,
      listeners = on resp BoundHandleResponse (map (\<lambda>p. (fst p, Responder (snd p))) rs),
      promises = [], responses = xs, calls = []\<rparr>"

text \<open>\<open>toString\<close>, lines 59-61.\<close>

definition toString :: "world \<Rightarrow> string" where
  "toString w = ''<Drain (request: '' @ d_request w @ '' response: '' @ d_response w @ '')>''"

text \<open>\<open>dispose\<close>, lines 84-87.\<close>

definition dispose :: "world \<Rightarrow> world" where
  "dispose w =
     w\<lparr>d_done := True,
       listeners := removeListener (d_response w) BoundHandleResponse (listeners w),
       calls := calls w @ [RemoveListener (d_response w)]\<rparr>"

text \<open>
  The \<open>try\<close> block of \<open>handleResponse\<close>, lines 73-76. \<open>this._current.resolve\<close> on a
  \<open>null\<close> holder throws a TypeError.
\<close>

definition try_block :: "response \<Rightarrow> world \<Rightarrow> unit completion \<times> world" where
  "try_block r w =
     (case get_done r of
        Inl e \<Rightarrow> (Throw e, w)
      | Inr d \<Rightarrow>
          (let w1 = (if truthy d then dispose w else w) in
           case d_current w1 of
             None \<Rightarrow> (Throw (TypeError ''resolve''), w1)
           | Some h \<Rightarrow> (Return (), resolve h r w1)))"

text \<open>The \<open>catch\<close> block, line 78: it runs when the \<open>try\<close> block threw.\<close>

definition catch_block :: "unit completion \<times> world \<Rightarrow> unit completion \<times> world" where
  "catch_block cw =
     (case cw of
        (Return u, w) \<Rightarrow> (Return u, w)
      | (Throw e, w) \<Rightarrow>
          (case d_current w of
             None \<Rightarrow> (Throw (TypeError ''reject''), w)
           | Some h \<Rightarrow> (Return (), reject h e w)))"

text \<open>The \<open>finally\<close> block, line 80: it runs whatever happened before.\<close>

definition finally_block :: "unit completion \<times> world \<Rightarrow> unit completion \<times> world" where
  "finally_block cw = (fst cw, (snd cw)\<lparr>d_current := None\<rparr>)"

text \<open>
  \<open>handleResponse\<close>, lines 63-82. The calls of \<open>debug\<close> (lines 64 and 91) only
  log; they are left out.
\<close>

definition handleResponse :: "response \<Rightarrow> world \<Rightarrow> unit completion \<times> world" where
  "handleResponse r w =
     (if d_waiting w = False
      then (Throw (Error (toString w @ '' Was not expecting a response, but got a response'')), w)
      else finally_block (catch_block (try_block r (w\<lparr>d_waiting := False\<rparr>))))"

text \<open>
  The responder of src/test.js, lines 37-42: the payload it builds
  (\<open>done: responses.length === 0\<close>, then \<open>value: responses.shift()\<close>).
\<close>

definition responder_payload :: "world \<Rightarrow> response \<times> world" where
  "responder_payload w =
     (Obj (DoneValue (JBool (responses w = [])))
          (case responses w of [] \<Rightarrow> JUndefined | x # xs \<Rightarrow> JStr x),
      w\<lparr>responses := tl (responses w)\<rparr>)"

text \<open>
  \<open>emit\<close> calls the handlers registered for the event one after the other, and a
  handler may emit in turn. \<open>dispatch\<close> runs the stack of emits in progress: each
  frame is the handlers still to call and the payload they get. A handler that
  throws ends every emit in progress, since neither \<open>emit\<close> nor the responder
  catches. An emit that never returns has no result (\<open>None\<close>).
\<close>

partial_function (option) dispatch ::
  "(listener list \<times> response) list \<Rightarrow> world \<Rightarrow> (unit completion \<times> world) option" where
  "dispatch stack w =
     (case stack of
        [] \<Rightarrow> Some (Return (), w)
      | frame # rest \<Rightarrow>
          (case fst frame of
             [] \<Rightarrow> dispatch rest w
           | l # ls \<Rightarrow>
               (case l of
                  BoundHandleResponse \<Rightarrow>
                    (case handleResponse (snd frame) w of
                       (Throw e, w') \<Rightarrow> Some (Throw e, w')
                     | (Return u, w') \<Rightarrow> dispatch ((ls, snd frame) # rest) w')
                | Responder name \<Rightarrow>
                    (case responder_payload w of
                       (payload, w') \<Rightarrow>
                         dispatch ((listeners_for name (listeners w'), payload)
                                   # (ls, snd frame) # rest) w'))))"

declare dispatch.simps [code]

definition emit :: "string \<Rightarrow> response \<Rightarrow> world \<Rightarrow> (unit completion \<times> world) option" where
  "emit name payload w = dispatch [(listeners_for name (listeners w), payload)] w"

text \<open>\<open>_makeNextRequest\<close>, lines 89-93: the request is emitted without a payload.\<close>

definition makeNextRequest :: "world \<Rightarrow> (unit completion \<times> world) option" where
  "makeNextRequest w =
     (let w1 = w\<lparr>d_waiting := True\<rparr>;
          w2 = w1\<lparr>calls := calls w1 @ [Emit (d_request w1)]\<rparr>
      in emit (d_request w2) (Prim JUndefined) w2)"

text \<open>
  \<open>next\<close>, lines 95-116. The result is what the body of the \<open>async\<close> function
  returns: the promise that the promise of the call then follows, or the exception
  that rejects it.
\<close>

definition drain_next :: "world \<Rightarrow> (nat completion \<times> world) option" where
  "drain_next w =
     (if d_done w
      then (case Promise_resolve (Obj (DoneValue (JBool True)) JNull) w of
              (p, w') \<Rightarrow> Some (Return p, w'))
      else (case d_current w of
              Some h \<Rightarrow> Some (Return h, w)
            | None \<Rightarrow>
                (case new_Promise w of
                   (p, w1) \<Rightarrow>
                     (case makeNextRequest (w1\<lparr>d_current := Some p\<rparr>) of
                        None \<Rightarrow> None
                      | Some (Throw e, w2) \<Rightarrow> Some (Throw e, w2)
                      | Some (Return u, w2) \<Rightarrow> Some (Return p, w2)))))"

text \<open>
  The state in which \<open>next\<close> hands control to the bus (lines 99-113): the new
  holder is stored, the adapter is waiting, and the request is being emitted.
\<close>

definition requested :: "world \<Rightarrow> world" where
  "requested w =
     w\<lparr>promises := promises w @ [Pending], d_current := Some (length (promises w)),
       d_waiting := True, calls := calls w @ [Emit (d_request w)]\<rparr>"

section \<open>The consumer loop and the operations of a client\<close>

text \<open>
  \<open>await drain.next()\<close>: the value of the promise when it is resolved, its error
  thrown when it is rejected. With one flow of control and every response
  delivered synchronously by the bus, a promise still pending when it is awaited is
  never settled: the \<open>await\<close> does not return (\<open>None\<close>).
\<close>

definition await_next :: "world \<Rightarrow> (response completion \<times> world) option" where
  "await_next w =
     (case drain_next w of
        None \<Rightarrow> None
      | Some (Throw e, w') \<Rightarrow> Some (Throw e, w')
      | Some (Return p, w') \<Rightarrow>
          (case promise_state w' p of
             Pending \<Rightarrow> None
           | Resolved r \<Rightarrow> Some (Return r, w')
           | Rejected e \<Rightarrow> Some (Throw e, w')))"

text \<open>The \<open>while\<close> loop of \<open>asyncDrain\<close>, src/test.js, lines 11-15.\<close>

partial_function (option) asyncDrain_while ::
  "response \<Rightarrow> jsval list \<Rightarrow> world \<Rightarrow> (jsval list completion \<times> world) option" where
  "asyncDrain_while step vs w =
     (case get_done step of
        Inl e \<Rightarrow> Some (Throw e, w)
      | Inr d \<Rightarrow>
          (if \<not> truthy d
           then (case get_value step of
                   Inl e \<Rightarrow> Some (Throw e, w)
                 | Inr v \<Rightarrow>
                     (case await_next w of
                        None \<Rightarrow> None
                      | Some (Throw e, w') \<Rightarrow> Some (Throw e, w')
                      | Some (Return step', w') \<Rightarrow> asyncDrain_while step' (vs @ [v]) w'))
           else Some (Return vs, w)))"

declare asyncDrain_while.simps [code]

text \<open>\<open>asyncDrain\<close>, src/test.js, lines 8-16.\<close>

definition asyncDrain :: "world \<Rightarrow> (jsval list completion \<times> world) option" where
  "asyncDrain w =
     (case await_next w of
        None \<Rightarrow> None
      | Some (Throw e, w') \<Rightarrow> Some (Throw e, w')
      | Some (Return step, w') \<Rightarrow> asyncDrain_while step [] w')"

text \<open>
  The set-up of the test "drains async - happy path" (src/test.js, lines 35-47): the
  responder is registered on the request event, then the adapter is constructed.
\<close>

definition happy_path :: world where
  "happy_path =
     new_Drain [(''testem:next-module-request'', ''testem:next-module-response'')]
       [''a'', ''b'', ''c''] ''testem:next-module-request'' ''testem:next-module-response''"

text \<open>
  The adapter idle on a bus where one responder answers its requests: the set-up of
  the tests of src/test.js that drain, for any two distinct event names.
\<close>

definition serving :: "string \<Rightarrow> string \<Rightarrow> world \<Rightarrow> bool" where
  "serving req resp w \<longleftrightarrow>
     d_request w = req \<and> d_response w = resp \<and> req \<noteq> resp \<and>
     \<not> d_done w \<and> d_current w = None \<and> \<not> d_waiting w \<and>
     listeners w = [(req, Responder resp), (resp, BoundHandleResponse)]"

text \<open>
  What a client of the adapter does with it: it calls \<open>next\<close>, \<open>dispose\<close> or
  \<open>handleResponse\<close>, or it emits an event on the shared bus (src/test.js, line 140).
  An exception is the caller's to handle; the state it leaves behind stays.
\<close>

datatype op = Next | HandleResponse response | Dispose | BusEmit string response

fun step :: "op \<Rightarrow> world \<Rightarrow> world option" where
  "step Next w = map_option snd (drain_next w)"
| "step (HandleResponse r) w = Some (snd (handleResponse r w))"
| "step Dispose w = Some (dispose w)"
| "step (BusEmit name r) w = map_option snd (emit name r w)"

fun exec :: "op list \<Rightarrow> world \<Rightarrow> world option" where
  "exec [] w = Some w"
| "exec (x # xs) w = (case step x w of None \<Rightarrow> None | Some w' \<Rightarrow> exec xs w')"

text \<open>The state invariants of section 3 of the spec, as they hold between calls.\<close>

definition invar :: "world \<Rightarrow> bool" where
  "invar w \<longleftrightarrow>
     (d_waiting w \<longleftrightarrow> d_current w \<noteq> None) \<and>
     (case d_current w of None \<Rightarrow> True | Some h \<Rightarrow> promise_state w h = Pending \<and> h < length (promises w)) \<and>
     count_list (listeners w) (d_response w, BoundHandleResponse) \<le> (if d_done w then 0 else 1)"

definition is_Emit :: "call \<Rightarrow> bool" where
  "is_Emit c = (case c of Emit n \<Rightarrow> True | _ \<Rightarrow> False)"

definition is_settle :: "call \<Rightarrow> bool" where
  "is_settle c = (case c of Resolve h r \<Rightarrow> True | Reject h e \<Rightarrow> True | _ \<Rightarrow> False)"

section \<open>Everything the bus does goes through the handler and the responder\<close>

lemma dispatch_preserves_aux:
  assumes hr: "\<And>r w. P w \<Longrightarrow> P (snd (handleResponse r w))"
      and rp: "\<And>w. P w \<Longrightarrow> P (snd (responder_payload w))"
      and d: "dispatch stack w = Some cw"
  shows "P w \<longrightarrow> P (snd cw)"
proof (rule dispatch.raw_induct[where P = "\<lambda>stack w cw. P w \<longrightarrow> P (snd cw)", OF _ d])
  fix f :: "(listener list \<times> response) list \<Rightarrow> world \<Rightarrow> (unit completion \<times> world) option"
    and stack w cw
  assume IH: "\<And>stack w cw. f stack w = Some cw \<Longrightarrow> P w \<longrightarrow> P (snd cw)"
  assume body: "(case stack of
        [] \<Rightarrow> Some (Return (), w)
      | frame # rest \<Rightarrow>
          (case fst frame of
             [] \<Rightarrow> f rest w
           | l # ls \<Rightarrow>
               (case l of
                  BoundHandleResponse \<Rightarrow>
                    (case handleResponse (snd frame) w of
                       (Throw e, w') \<Rightarrow> Some (Throw e, w')
                     | (Return u, w') \<Rightarrow> f ((ls, snd frame) # rest) w')
                | Responder name \<Rightarrow>
                    (case responder_payload w of
                       (payload, w') \<Rightarrow>
                         f ((listeners_for name (listeners w'), payload)
                                   # (ls, snd frame) # rest) w')))) = Some cw"
  show "P w \<longrightarrow> P (snd cw)"
  proof
    assume Pw: "P w"
    show "P (snd cw)"
    proof (cases stack)
      case Nil
      with body Pw show ?thesis by auto
    next
      case (Cons frame rest)
      note st = Cons
      show ?thesis
      proof (cases "fst frame")
        case Nil
        with body st have "f rest w = Some cw" by simp
        with IH Pw show ?thesis by blast
      next
        case (Cons l ls)
        note fl = Cons
        show ?thesis
        proof (cases l)
          case BoundHandleResponse
          obtain c w1 where h: "handleResponse (snd frame) w = (c, w1)"
            by (cases "handleResponse (snd frame) w")
          have P1: "P w1" using hr[OF Pw, of "snd frame"] h by simp
          show ?thesis
          proof (cases c)
            case (Return u)
            with body st fl BoundHandleResponse h
            have "f ((ls, snd frame) # rest) w1 = Some cw" by simp
            with IH P1 show ?thesis by blast
          next
            case (Throw e)
            with body st fl BoundHandleResponse h
            have "cw = (Throw e, w1)" by simp
            with P1 show ?thesis by simp
          qed
        next
          case (Responder name)
          obtain payload w1 where h: "responder_payload w = (payload, w1)"
            by (cases "responder_payload w")
          have P1: "P w1" using rp[OF Pw] h by simp
          from body st fl Responder h
          have "f ((listeners_for name (listeners w1), payload) # (ls, snd frame) # rest) w1 = Some cw"
            by simp
          with IH P1 show ?thesis by blast
        qed
      qed
    qed
  qed
qed

lemma dispatch_preserves:
  assumes "\<And>r w. P w \<Longrightarrow> P (snd (handleResponse r w))"
      and "\<And>w. P w \<Longrightarrow> P (snd (responder_payload w))"
      and "dispatch stack w = Some cw" and "P w"
  shows "P (snd cw)"
  using dispatch_preserves_aux[of P, OF assms(1) assms(2) assms(3)] assms(4) by blast

section \<open>What \<open>handleResponse\<close> does, case by case\<close>

lemma handleResponse_not_waiting:
  "\<not> d_waiting w \<Longrightarrow>
   handleResponse r w =
     (Throw (Error (toString w @ '' Was not expecting a response, but got a response'')), w)"
  by (simp add: handleResponse_def)

lemma handleResponse_getter_throws:
  "d_waiting w \<Longrightarrow> d_current w = Some h \<Longrightarrow> get_done r = Inl e \<Longrightarrow>
   handleResponse r w = (Return (), (reject h e (w\<lparr>d_waiting := False\<rparr>))\<lparr>d_current := None\<rparr>)"
  by (simp add: handleResponse_def try_block_def catch_block_def finally_block_def)

lemma handleResponse_done:
  "d_waiting w \<Longrightarrow> d_current w = Some h \<Longrightarrow> get_done r = Inr d \<Longrightarrow> truthy d \<Longrightarrow>
   handleResponse r w =
     (Return (), (resolve h r (dispose (w\<lparr>d_waiting := False\<rparr>)))\<lparr>d_current := None\<rparr>)"
  by (simp add: handleResponse_def try_block_def catch_block_def finally_block_def dispose_def)

lemma handleResponse_more:
  "d_waiting w \<Longrightarrow> d_current w = Some h \<Longrightarrow> get_done r = Inr d \<Longrightarrow> \<not> truthy d \<Longrightarrow>
   handleResponse r w = (Return (), (resolve h r (w\<lparr>d_waiting := False\<rparr>))\<lparr>d_current := None\<rparr>)"
  by (simp add: handleResponse_def try_block_def catch_block_def finally_block_def)

lemma handleResponse_no_holder:
  "d_waiting w \<Longrightarrow> d_current w = None \<Longrightarrow>
   handleResponse r w =
     (Throw (TypeError ''reject''),
      (if (case get_done r of Inl e \<Rightarrow> False | Inr d \<Rightarrow> truthy d)
       then dispose (w\<lparr>d_waiting := False\<rparr>) else w\<lparr>d_waiting := False\<rparr>)\<lparr>d_current := None\<rparr>)"
  by (simp add: handleResponse_def try_block_def catch_block_def finally_block_def dispose_def
      split: sum.splits)

lemma handleResponse_cases:
  obtains (not_waiting) "\<not> d_waiting w" "handleResponse r w =
     (Throw (Error (toString w @ '' Was not expecting a response, but got a response'')), w)"
  | (no_holder) "d_waiting w" "d_current w = None" "handleResponse r w =
     (Throw (TypeError ''reject''),
      (if (case get_done r of Inl e \<Rightarrow> False | Inr d \<Rightarrow> truthy d)
       then dispose (w\<lparr>d_waiting := False\<rparr>) else w\<lparr>d_waiting := False\<rparr>)\<lparr>d_current := None\<rparr>)"
  | (throws) h e where "d_waiting w" "d_current w = Some h" "get_done r = Inl e"
      "handleResponse r w = (Return (), (reject h e (w\<lparr>d_waiting := False\<rparr>))\<lparr>d_current := None\<rparr>)"
  | (finished) h d where "d_waiting w" "d_current w = Some h" "get_done r = Inr d" "truthy d"
      "handleResponse r w =
         (Return (), (resolve h r (dispose (w\<lparr>d_waiting := False\<rparr>)))\<lparr>d_current := None\<rparr>)"
  | (more) h d where "d_waiting w" "d_current w = Some h" "get_done r = Inr d" "\<not> truthy d"
      "handleResponse r w = (Return (), (resolve h r (w\<lparr>d_waiting := False\<rparr>))\<lparr>d_current := None\<rparr>)"
proof (cases "d_waiting w")
  case False
  then show ?thesis using handleResponse_not_waiting not_waiting by blast
next
  case True
  note wt = True
  show ?thesis
  proof (cases "d_current w")
    case None
    then show ?thesis using wt no_holder handleResponse_no_holder by blast
  next
    case (Some h)
    show ?thesis
    proof (cases "get_done r")
      case (Inl e)
      then show ?thesis using wt Some throws handleResponse_getter_throws by blast
    next
      case (Inr d)
      then show ?thesis using wt Some finished more handleResponse_done handleResponse_more
        by (cases "truthy d") blast+
    qed
  qed
qed

lemma handleResponse_waiting_clears:
  "d_waiting w \<Longrightarrow> d_current (snd (handleResponse r w)) = None"
  by (cases rule: handleResponse_cases[of w r]) simp_all

lemma handleResponse_names:
  "d_request (snd (handleResponse r w)) = d_request w \<and>
   d_response (snd (handleResponse r w)) = d_response w \<and>
   responses (snd (handleResponse r w)) = responses w"
  by (cases rule: handleResponse_cases[of w r])
     (simp_all add: dispose_def resolve_def reject_def)

lemma handleResponse_done_mono:
  "d_done w \<Longrightarrow> d_done (snd (handleResponse r w))"
  by (cases rule: handleResponse_cases[of w r])
     (simp_all add: dispose_def resolve_def reject_def)

lemma handleResponse_no_Emit:
  "filter is_Emit (calls (snd (handleResponse r w))) = filter is_Emit (calls w)"
  by (cases rule: handleResponse_cases[of w r])
     (simp_all add: dispose_def resolve_def reject_def is_Emit_def)

lemma handleResponse_current_None:
  "d_current w = None \<Longrightarrow> d_current (snd (handleResponse r w)) = None"
  by (cases rule: handleResponse_cases[of w r])
     (simp_all add: dispose_def resolve_def reject_def)

section \<open>Registrations and promises\<close>

lemma count_removeListener:
  "count_list (removeListener n l ls) (n, l) = count_list ls (n, l) - 1"
  by (simp add: removeListener_def)

lemma removeListener_absent:
  "(n, l) \<notin> set ls \<Longrightarrow> removeListener n l ls = ls"
  by (simp add: removeListener_def remove1_idem)

lemma settle_length [simp]: "length (settle p s ps) = length ps"
  by (simp add: settle_def)

lemma promise_state_settle:
  "promise_state w h = Pending \<Longrightarrow> h < length (promises w) \<Longrightarrow>
   promise_state (w\<lparr>promises := settle h s (promises w)\<rparr>) h = s"
  by (simp add: promise_state_def settle_def)

lemma promise_state_fresh: "promise_state (w\<lparr>promises := ps @ [t]\<rparr>) (length ps) = t"
  by (simp add: promise_state_def)

lemma handleResponse_settles_holder:
  assumes "d_waiting w" and "d_current w = Some h" and "promise_state w h = Pending"
      and "h < length (promises w)"
  shows "promise_state (snd (handleResponse r w)) h =
           (case get_done r of Inl e \<Rightarrow> Rejected e | Inr d \<Rightarrow> Resolved r)"
proof (cases "get_done r")
  case (Inl e)
  from handleResponse_getter_throws[OF assms(1,2) Inl] assms(3,4) Inl show ?thesis
    by (simp add: reject_def promise_state_def settle_def)
next
  case (Inr d)
  show ?thesis
  proof (cases "truthy d")
    case True
    from handleResponse_done[OF assms(1,2) Inr True] assms(3,4) Inr show ?thesis
      by (simp add: resolve_def dispose_def promise_state_def settle_def)
  next
    case False
    from handleResponse_more[OF assms(1,2) Inr False] assms(3,4) Inr show ?thesis
      by (simp add: resolve_def promise_state_def settle_def)
  qed
qed

section \<open>The invariant\<close>

lemma handleResponse_invar:
  "invar w \<Longrightarrow> invar (snd (handleResponse r w))"
proof (cases rule: handleResponse_cases[of w r])
  case not_waiting
  assume "invar w" with not_waiting show ?thesis by simp
next
  case no_holder
  assume "invar w" with no_holder show ?thesis by (simp add: invar_def)
next
  case (throws h e)
  assume "invar w" with throws show ?thesis
    by (simp add: invar_def reject_def)
next
  case (finished h d)
  assume "invar w" with finished show ?thesis
    by (auto simp: invar_def resolve_def dispose_def count_removeListener split: if_splits)
next
  case (more h d)
  assume "invar w" with more show ?thesis
    by (simp add: invar_def resolve_def)
qed

lemma responder_payload_snd:
  "snd (responder_payload w) = w\<lparr>responses := tl (responses w)\<rparr>"
  by (simp add: responder_payload_def)

lemma responder_payload_invar: "invar w \<Longrightarrow> invar (snd (responder_payload w))"
  by (auto simp: responder_payload_snd invar_def promise_state_def split: option.splits)

lemma dispatch_invar: "dispatch stack w = Some cw \<Longrightarrow> invar w \<Longrightarrow> invar (snd cw)"
  by (rule dispatch_preserves[of invar]) (simp_all add: handleResponse_invar responder_payload_invar)

lemma dispose_invar: "invar w \<Longrightarrow> invar (dispose w)"
  by (auto simp: invar_def dispose_def promise_state_def count_removeListener split: option.splits if_splits)

section \<open>What an emit leaves alone\<close>

lemma dispatch_names:
  assumes "dispatch stack w = Some cw"
  shows "d_request (snd cw) = d_request w \<and> d_response (snd cw) = d_response w"
  using dispatch_preserves[of "\<lambda>v. d_request v = d_request w \<and> d_response v = d_response w", OF _ _ assms]
  by (simp add: handleResponse_names responder_payload_snd)

lemma dispatch_done_mono: "dispatch stack w = Some cw \<Longrightarrow> d_done w \<Longrightarrow> d_done (snd cw)"
  by (rule dispatch_preserves[of d_done]) (simp_all add: handleResponse_done_mono responder_payload_snd)

lemma dispatch_no_Emit:
  assumes "dispatch stack w = Some cw"
  shows "filter is_Emit (calls (snd cw)) = filter is_Emit (calls w)"
  using dispatch_preserves[of "\<lambda>v. filter is_Emit (calls v) = filter is_Emit (calls w)", OF _ _ assms]
  by (simp add: handleResponse_no_Emit responder_payload_snd)

lemma dispatch_current_None:
  "dispatch stack w = Some cw \<Longrightarrow> d_current w = None \<Longrightarrow> d_current (snd cw) = None"
  by (rule dispatch_preserves[of "\<lambda>v. d_current v = None"])
     (simp_all add: handleResponse_current_None responder_payload_snd)

lemma dispatch_untouched:
  assumes d: "dispatch stack w = Some cw" and wt: "d_waiting w" and cur: "d_current (snd cw) \<noteq> None"
  shows "snd cw = w\<lparr>responses := responses (snd cw)\<rparr>"
proof -
  let ?P = "\<lambda>v. d_current v = None \<or> v = w\<lparr>responses := responses v\<rparr>"
  have hr: "\<And>r v. ?P v \<Longrightarrow> ?P (snd (handleResponse r v))"
  proof -
    fix r v assume "?P v"
    then show "?P (snd (handleResponse r v))"
    proof
      assume "d_current v = None"
      then show ?thesis by (simp add: handleResponse_current_None)
    next
      assume "v = w\<lparr>responses := responses v\<rparr>"
      then have "d_waiting v = d_waiting w" by (metis world.select_convs(5) world.surjective world.update_convs(8))
      with wt show ?thesis by (simp add: handleResponse_waiting_clears)
    qed
  qed
  have rp: "\<And>v. ?P v \<Longrightarrow> ?P (snd (responder_payload v))"
  proof -
    fix v assume "?P v"
    then show "?P (snd (responder_payload v))"
    proof
      assume "d_current v = None"
      then show ?thesis by (simp add: responder_payload_snd)
    next
      assume a: "v = w\<lparr>responses := responses v\<rparr>"
      have "v\<lparr>responses := tl (responses v)\<rparr> = w\<lparr>responses := tl (responses v)\<rparr>"
        by (subst a) simp
      then show ?thesis by (simp add: responder_payload_snd)
    qed
  qed
  have "?P w" by simp
  from dispatch_preserves[of ?P, OF hr rp d this] cur show ?thesis by blast
qed

lemma dispatch_no_listeners: "dispatch [([], r)] w = Some (Return (), w)"
  by (simp add: dispatch.simps)

section \<open>What \<open>next\<close> does, case by case\<close>

lemma drain_next_done:
  "d_done w \<Longrightarrow>
   drain_next w =
     Some (Return (length (promises w)),
           w\<lparr>promises := promises w @ [Resolved (Obj (DoneValue (JBool True)) JNull)]\<rparr>)"
  by (simp add: drain_next_def Promise_resolve_def)

lemma drain_next_pending:
  "\<not> d_done w \<Longrightarrow> d_current w = Some h \<Longrightarrow> drain_next w = Some (Return h, w)"
  by (simp add: drain_next_def)

lemma drain_next_request:
  "\<not> d_done w \<Longrightarrow> d_current w = None \<Longrightarrow>
   drain_next w =
     (case dispatch [(listeners_for (d_request w) (listeners w), Prim JUndefined)] (requested w) of
        None \<Rightarrow> None
      | Some (Throw e, w2) \<Rightarrow> Some (Throw e, w2)
      | Some (Return u, w2) \<Rightarrow> Some (Return (length (promises w)), w2))"
  by (simp add: drain_next_def new_Promise_def makeNextRequest_def emit_def requested_def Let_def)

lemma requested_invar: "invar w \<Longrightarrow> d_current w = None \<Longrightarrow> invar (requested w)"
  by (simp add: invar_def requested_def promise_state_def nth_append)

lemma drain_next_step:
  assumes "drain_next w = Some (c, w')"
  obtains (finished) "d_done w" "w' = w\<lparr>promises := promises w @ [Resolved (Obj (DoneValue (JBool True)) JNull)]\<rparr>"
      "c = Return (length (promises w))"
  | (pending) h where "\<not> d_done w" "d_current w = Some h" "w' = w" "c = Return h"
  | (request) c' where "\<not> d_done w" "d_current w = None"
      "dispatch [(listeners_for (d_request w) (listeners w), Prim JUndefined)] (requested w) = Some (c', w')"
      "c = (case c' of Return u \<Rightarrow> Return (length (promises w)) | Throw e \<Rightarrow> Throw e)"
proof (cases "d_done w")
  case True
  with assms have "w' = w\<lparr>promises := promises w @ [Resolved (Obj (DoneValue (JBool True)) JNull)]\<rparr>"
    and "c = Return (length (promises w))"
    by (simp_all add: drain_next_done)
  with True finished show ?thesis by blast
next
  case False
  note nd = False
  show ?thesis
  proof (cases "d_current w")
    case (Some h)
    with assms nd have "w' = w" and "c = Return h"
      by (simp_all add: drain_next_pending)
    with nd Some pending show ?thesis by blast
  next
    case None
    let ?d = "dispatch [(listeners_for (d_request w) (listeners w), Prim JUndefined)] (requested w)"
    from assms have eq: "(case ?d of
        None \<Rightarrow> None
      | Some (Throw e, w2) \<Rightarrow> Some (Throw e, w2)
      | Some (Return u, w2) \<Rightarrow> Some (Return (length (promises w)), w2)) = Some (c, w')"
      by (simp only: drain_next_request[OF nd None])
    then obtain c' w2 where d: "?d = Some (c', w2)"
      by (cases ?d) auto
    from eq d have "w2 = w'" and "c = (case c' of Return u \<Rightarrow> Return (length (promises w)) | Throw e \<Rightarrow> Throw e)"
      by (cases c'; simp)+
    with d nd None request show ?thesis by blast
  qed
qed

lemma drain_next_invar:
  assumes "drain_next w = Some (c, w')" "invar w"
  shows "invar w'"
  using assms(1)
proof (cases rule: drain_next_step)
  case finished
  with assms(2) show ?thesis by (auto simp: invar_def promise_state_def nth_append split: option.splits)
next
  case (pending h)
  with assms(2) show ?thesis by simp
next
  case (request c')
  from dispatch_invar[OF request(3) requested_invar[OF assms(2) request(2)]] show ?thesis by simp
qed

lemma drain_next_names:
  assumes "drain_next w = Some (c, w')"
  shows "d_request w' = d_request w \<and> d_response w' = d_response w"
  using assms
proof (cases rule: drain_next_step)
  case (request c')
  from dispatch_names[OF request(3)] show ?thesis by (simp add: requested_def)
qed simp_all

lemma drain_next_done_mono:
  assumes "drain_next w = Some (c, w')" "d_done w"
  shows "d_done w'"
  using assms by (auto simp: drain_next_done)

lemma drain_next_no_responder:
  assumes "\<not> d_done w" and "d_current w = None" and "listeners_for (d_request w) (listeners w) = []"
  shows "drain_next w = Some (Return (length (promises w)), requested w)"
  using assms by (simp add: drain_next_request dispatch_no_listeners)

lemma drain_next_still_pending:
  assumes nd: "\<not> d_done w" and cur: "d_current w = None"
      and nx: "drain_next w = Some (c, w1)" and st: "d_current w1 \<noteq> None"
  shows "w1 = (requested w)\<lparr>responses := responses w1\<rparr>"
  using nx
proof (cases rule: drain_next_step)
  case finished
  with nd show ?thesis by simp
next
  case (pending h)
  with cur show ?thesis by simp
next
  case (request c')
  have "d_waiting (requested w)" by (simp add: requested_def)
  from dispatch_untouched[OF request(3) this] st show ?thesis by simp
qed

lemma exec_next_done:
  "d_done w \<Longrightarrow>
   exec (replicate n Next) w =
     Some (w\<lparr>promises := promises w @ replicate n (Resolved (Obj (DoneValue (JBool True)) JNull))\<rparr>)"
proof (induction n arbitrary: w)
  case 0
  then show ?case by simp
next
  case (Suc n)
  let ?t = "Resolved (Obj (DoneValue (JBool True)) JNull)"
  let ?b = "w\<lparr>promises := promises w @ [?t]\<rparr>"
  have s: "step Next w = Some ?b" using Suc.prems by (simp add: drain_next_done)
  have "d_done ?b" using Suc.prems by simp
  have "exec (replicate (Suc n) Next) w = exec (replicate n Next) ?b"
    using s by (simp del: step.simps)
  with Suc.IH[OF \<open>d_done ?b\<close>] show ?case by simp
qed

section \<open>States reached from construction\<close>

lemma step_invar:
  assumes "step x w = Some w'" "invar w"
  shows "invar w'"
proof (cases x)
  case Next
  with assms(1) obtain c where "drain_next w = Some (c, w')" by auto
  from drain_next_invar[OF this assms(2)] show ?thesis .
next
  case (HandleResponse r)
  with assms show ?thesis by (auto simp: handleResponse_invar)
next
  case Dispose
  with assms show ?thesis by (auto simp: dispose_invar)
next
  case (BusEmit name r)
  with assms(1) obtain c where "emit name r w = Some (c, w')" by auto
  then have "dispatch [(listeners_for name (listeners w), r)] w = Some (c, w')"
    by (simp add: emit_def)
  from dispatch_invar[OF this assms(2)] show ?thesis by simp
qed

lemma exec_invar: "exec xs w = Some w' \<Longrightarrow> invar w \<Longrightarrow> invar w'"
proof (induction xs arbitrary: w)
  case Nil
  then show ?case by simp
next
  case (Cons x xs)
  then show ?case by (auto split: option.splits dest: step_invar)
qed

lemma new_Drain_invar: "invar (new_Drain rs xs req resp)"
proof -
  have "(resp, BoundHandleResponse) \<notin> set (map (\<lambda>p. (fst p, Responder (snd p))) rs)"
    by auto
  then have "count_list (map (\<lambda>p. (fst p, Responder (snd p))) rs) (resp, BoundHandleResponse) = 0"
    by (rule count_notin)
  then show ?thesis by (simp add: invar_def new_Drain_def on_def)
qed

lemma reach_invar: "exec ops (new_Drain rs xs req resp) = Some w \<Longrightarrow> invar w"
  using exec_invar new_Drain_invar by blast

lemma reach_holder:
  assumes "exec xs (new_Drain rs vs req resp) = Some w" and "d_waiting w"
  obtains h where "d_current w = Some h" and "promise_state w h = Pending" and "h < length (promises w)"
proof -
  have "invar w" using assms(1) by (rule reach_invar)
  with assms(2) show ?thesis using that by (auto simp: invar_def split: option.splits)
qed

lemma step_names:
  assumes "step x w = Some w'"
  shows "d_request w' = d_request w \<and> d_response w' = d_response w"
proof (cases x)
  case Next
  with assms obtain c where "drain_next w = Some (c, w')" by auto
  from drain_next_names[OF this] show ?thesis .
next
  case (HandleResponse r)
  with assms show ?thesis by (auto simp: handleResponse_names)
next
  case Dispose
  with assms show ?thesis by (auto simp: dispose_def)
next
  case (BusEmit name r)
  with assms obtain c where "emit name r w = Some (c, w')" by auto
  then have "dispatch [(listeners_for name (listeners w), r)] w = Some (c, w')"
    by (simp add: emit_def)
  from dispatch_names[OF this] show ?thesis by simp
qed

lemma step_done:
  assumes "step x w = Some w'" "d_done w"
  shows "d_done w' \<and> filter is_Emit (calls w') = filter is_Emit (calls w)"
proof (cases x)
  case Next
  with assms have "w' = w\<lparr>promises := promises w @ [Resolved (Obj (DoneValue (JBool True)) JNull)]\<rparr>"
    by (auto simp: drain_next_done)
  with assms(2) show ?thesis by simp
next
  case (HandleResponse r)
  with assms show ?thesis by (auto simp: handleResponse_done_mono handleResponse_no_Emit)
next
  case Dispose
  with assms show ?thesis by (auto simp: dispose_def is_Emit_def)
next
  case (BusEmit name r)
  with assms obtain c where "emit name r w = Some (c, w')" by auto
  then have d: "dispatch [(listeners_for name (listeners w), r)] w = Some (c, w')"
    by (simp add: emit_def)
  from dispatch_done_mono[OF d assms(2)] dispatch_no_Emit[OF d] show ?thesis by simp
qed

lemma exec_done:
  "exec xs w = Some w' \<Longrightarrow> d_done w \<Longrightarrow>
   d_done w' \<and> filter is_Emit (calls w') = filter is_Emit (calls w)"
proof (induction xs arbitrary: w)
  case Nil
  then show ?case by simp
next
  case (Cons x xs)
  from Cons.prems obtain w1 where s: "step x w = Some w1" and e: "exec xs w1 = Some w'"
    by (auto split: option.splits)
  from step_done[OF s Cons.prems(2)] Cons.IH[OF e] show ?case by simp
qed

lemma exec_names:
  "exec xs w = Some w' \<Longrightarrow> d_request w' = d_request w \<and> d_response w' = d_response w"
proof (induction xs arbitrary: w)
  case Nil
  then show ?case by simp
next
  case (Cons x xs)
  from Cons.prems obtain w1 where s: "step x w = Some w1" and e: "exec xs w1 = Some w'"
    by (auto split: option.splits)
  from step_names[OF s] Cons.IH[OF e] show ?case by simp
qed

lemma invar_done_unsubscribed:
  "invar w \<Longrightarrow> d_done w \<Longrightarrow> BoundHandleResponse \<notin> set (listeners_for (d_response w) (listeners w))"
proof -
  assume "invar w" "d_done w"
  then have "count_list (listeners w) (d_response w, BoundHandleResponse) = 0"
    by (simp add: invar_def)
  then have "(d_response w, BoundHandleResponse) \<notin> set (listeners w)"
    by (simp add: count_list_0_iff)
  then show ?thesis by (auto simp: listeners_for_def)
qed

lemma example_next:
  "exec [Next] (new_Drain [] [] ''q'' ''r'') = Some (requested (new_Drain [] [] ''q'' ''r''))"
proof -
  have "drain_next (new_Drain [] [] ''q'' ''r'') =
        Some (Return (length (promises (new_Drain [] [] ''q'' ''r''))), requested (new_Drain [] [] ''q'' ''r''))"
    by (rule drain_next_no_responder) (simp_all add: new_Drain_def on_def listeners_for_def)
  then show ?thesis by simp
qed

section \<open>Draining a responder that answers synchronously\<close>

lemma dispatch_Nil: "dispatch [] w = Some (Return (), w)"
  by (subst dispatch.simps) simp

lemma dispatch_frame_done: "dispatch (([], a) # rest) w = dispatch rest w"
  by (subst dispatch.simps) simp

lemma dispatch_handler:
  "dispatch ((BoundHandleResponse # ls, a) # rest) w =
     (case handleResponse a w of
        (Throw e, w') \<Rightarrow> Some (Throw e, w')
      | (Return u, w') \<Rightarrow> dispatch ((ls, a) # rest) w')"
  by (subst dispatch.simps) (simp split: prod.splits completion.splits)

lemma dispatch_responder:
  "dispatch ((Responder name # ls, a) # rest) w =
     (case responder_payload w of
        (payload, w') \<Rightarrow>
          dispatch ((listeners_for name (listeners w'), payload) # (ls, a) # rest) w')"
  by (subst dispatch.simps) (simp split: prod.splits)

lemma await_next_more:
  assumes "serving req resp w" and "responses w = x # xs"
  shows "\<exists>w'. await_next w = Some (Return (Obj (DoneValue (JBool False)) (JStr x)), w') \<and>
              serving req resp w' \<and> responses w' = xs"
proof -
  let ?p = "Obj (DoneValue (JBool False)) (JStr x)"
  let ?w' = "w\<lparr>promises := promises w @ [Resolved ?p], responses := xs,
                calls := calls w @ [Emit req, Resolve (length (promises w)) ?p]\<rparr>"
  from assms have nd: "\<not> d_done w" and cur: "d_current w = None" by (simp_all add: serving_def)
  have l1: "listeners_for (d_request w) (listeners w) = [Responder resp]"
    and l2: "listeners_for resp (listeners w) = [BoundHandleResponse]"
    using assms(1) by (auto simp: serving_def listeners_for_def)
  have l3: "listeners_for resp (listeners (requested w)) = [BoundHandleResponse]"
    using l2 by (simp add: requested_def)
  have rp: "responder_payload (requested w) = (?p, (requested w)\<lparr>responses := xs\<rparr>)"
    using assms(2) by (simp add: responder_payload_def requested_def)
  have hr: "handleResponse ?p ((requested w)\<lparr>responses := xs\<rparr>) = (Return (), ?w')"
    using assms(1)
    by (simp add: handleResponse_def try_block_def catch_block_def finally_block_def
        requested_def resolve_def settle_def serving_def)
  have d: "dispatch [([Responder resp], Prim JUndefined)] (requested w) = Some (Return (), ?w')"
    by (simp add: dispatch_responder rp l3 dispatch_handler hr dispatch_frame_done dispatch_Nil)
  have "drain_next w = Some (Return (length (promises w)), ?w')"
    by (simp add: drain_next_request[OF nd cur] l1 d)
  then have "await_next w = Some (Return ?p, ?w')"
    by (simp add: await_next_def promise_state_def)
  moreover have "serving req resp ?w'" using assms(1) by (simp add: serving_def)
  ultimately show ?thesis by auto
qed

lemma await_next_last:
  assumes "serving req resp w" and "responses w = []"
  shows "\<exists>w'. await_next w = Some (Return (Obj (DoneValue (JBool True)) JUndefined), w') \<and>
              d_done w' \<and> listenerCount resp (listeners w') = 0"
proof -
  let ?p = "Obj (DoneValue (JBool True)) JUndefined"
  let ?w' = "w\<lparr>d_done := True, listeners := [(req, Responder resp)],
                promises := promises w @ [Resolved ?p], responses := [],
                calls := calls w @ [Emit req, RemoveListener resp, Resolve (length (promises w)) ?p]\<rparr>"
  from assms have nd: "\<not> d_done w" and cur: "d_current w = None" by (simp_all add: serving_def)
  have l1: "listeners_for (d_request w) (listeners w) = [Responder resp]"
    and l2: "listeners_for resp (listeners w) = [BoundHandleResponse]"
    using assms(1) by (auto simp: serving_def listeners_for_def)
  have l3: "listeners_for resp (listeners (requested w)) = [BoundHandleResponse]"
    using l2 by (simp add: requested_def)
  have rp: "responder_payload (requested w) = (?p, (requested w)\<lparr>responses := []\<rparr>)"
    using assms(2) by (simp add: responder_payload_def requested_def)
  have hr: "handleResponse ?p ((requested w)\<lparr>responses := []\<rparr>) = (Return (), ?w')"
    using assms(1)
    by (simp add: handleResponse_def try_block_def catch_block_def finally_block_def
        requested_def resolve_def settle_def serving_def dispose_def removeListener_def)
  have d: "dispatch [([Responder resp], Prim JUndefined)] (requested w) = Some (Return (), ?w')"
    by (simp add: dispatch_responder rp l3 dispatch_handler hr dispatch_frame_done dispatch_Nil)
  have "drain_next w = Some (Return (length (promises w)), ?w')"
    by (simp add: drain_next_request[OF nd cur] l1 d)
  then have "await_next w = Some (Return ?p, ?w')"
    by (simp add: await_next_def promise_state_def)
  moreover have "listenerCount resp (listeners ?w') = 0" using assms(1)
    by (auto simp: serving_def listenerCount_def listeners_for_def)
  ultimately show ?thesis by auto
qed

lemma asyncDrain_while_finished:
  "asyncDrain_while (Obj (DoneValue (JBool True)) v) vs w = Some (Return vs, w)"
  by (subst asyncDrain_while.simps) simp

lemma asyncDrain_while_more:
  "asyncDrain_while (Obj (DoneValue (JBool False)) (JStr x)) vs w =
     (case await_next w of
        None \<Rightarrow> None
      | Some (Throw e, w') \<Rightarrow> Some (Throw e, w')
      | Some (Return step', w') \<Rightarrow> asyncDrain_while step' (vs @ [JStr x]) w')"
  by (subst asyncDrain_while.simps) simp

lemma asyncDrain_while_serving:
  "serving req resp w \<Longrightarrow> responses w = xs \<Longrightarrow>
   \<exists>w'. asyncDrain_while (Obj (DoneValue (JBool False)) (JStr x)) vs w =
          Some (Return (vs @ JStr x # map JStr xs), w') \<and>
        d_done w' \<and> listenerCount resp (listeners w') = 0"
proof (induction xs arbitrary: w x vs)
  case Nil
  from await_next_last[OF Nil.prems] obtain w' where
    "await_next w = Some (Return (Obj (DoneValue (JBool True)) JUndefined), w')"
    "d_done w'" "listenerCount resp (listeners w') = 0" by blast
  then show ?case by (simp add: asyncDrain_while_more asyncDrain_while_finished)
next
  case (Cons y ys)
  from await_next_more[OF Cons.prems] obtain w' where
    a: "await_next w = Some (Return (Obj (DoneValue (JBool False)) (JStr y)), w')"
    and s: "serving req resp w'" and r: "responses w' = ys" by blast
  from Cons.IH[OF s r, of y "vs @ [JStr x]"] a show ?case
    by (simp add: asyncDrain_while_more)
qed

lemma asyncDrain_serving:
  assumes "serving req resp w"
  shows "\<exists>w'. asyncDrain w = Some (Return (map JStr (responses w)), w') \<and>
              d_done w' \<and> listenerCount resp (listeners w') = 0"
proof (cases "responses w")
  case Nil
  from await_next_last[OF assms Nil] Nil show ?thesis
    by (auto simp: asyncDrain_def asyncDrain_while_finished)
next
  case (Cons x xs)
  from await_next_more[OF assms Cons] obtain w' where
    a: "await_next w = Some (Return (Obj (DoneValue (JBool False)) (JStr x)), w')"
    and s: "serving req resp w'" and r: "responses w' = xs" by blast
  from asyncDrain_while_serving[OF s r, of x "[]"] a Cons show ?thesis
    by (simp add: asyncDrain_def)
qed

lemma serving_new_Drain:
  "req \<noteq> resp \<Longrightarrow> serving req resp (new_Drain [(req, resp)] xs req resp)"
  by (simp add: serving_def new_Drain_def on_def)

section \<open>The claims\<close>

text \<open>
  C1. At most one request is in flight. While \<open>done\<close> is false, a call of \<open>next\<close> that
  finds a pending holder returns that holder's promise and changes nothing, so it
  emits nothing. In particular, when a first call of \<open>next\<close> has emitted its request
  and no response has arrived (the holder is still there after the call), the
  adapter has made exactly one call, the emit of the request; a second call of
  \<open>next\<close> returns the same promise and leaves the state as it is; and the response
  that then arrives settles that one promise, for both callers.
\<close>

theorem next_at_most_one_in_flight:
  assumes "\<not> d_done w"
  shows "(d_current w = Some h \<longrightarrow> drain_next w = Some (Return h, w)) \<and>
         (d_current w = None \<and> drain_next w = Some (Return p, w1) \<and> d_current w1 \<noteq> None \<longrightarrow>
            calls w1 = calls w @ [Emit (d_request w)] \<and>
            d_current w1 = Some p \<and> promise_state w1 p = Pending \<and>
            drain_next w1 = Some (Return p, w1) \<and>
            (\<forall>r. promise_state (snd (handleResponse r w1)) p =
                   (case get_done r of Inl e \<Rightarrow> Rejected e | Inr d \<Rightarrow> Resolved r)))"
proof -
  have a: "drain_next w = Some (Return h, w)" if "d_current w = Some h"
    using assms that by (rule drain_next_pending)
  have b: "calls w1 = calls w @ [Emit (d_request w)] \<and>
            d_current w1 = Some p \<and> promise_state w1 p = Pending \<and>
            drain_next w1 = Some (Return p, w1) \<and>
            (\<forall>r. promise_state (snd (handleResponse r w1)) p =
                   (case get_done r of Inl e \<Rightarrow> Rejected e | Inr d \<Rightarrow> Resolved r))"
    if cur: "d_current w = None" and nx: "drain_next w = Some (Return p, w1)"
      and st: "d_current w1 \<noteq> None"
  proof -
    have eq: "w1 = (requested w)\<lparr>responses := responses w1\<rparr>"
      using assms cur nx st by (rule drain_next_still_pending)
    have p: "p = length (promises w)"
      using nx
    proof (cases rule: drain_next_step)
      case finished
      with assms show ?thesis by simp
    next
      case (pending h)
      with cur show ?thesis by simp
    next
      case (request c')
      then show ?thesis by (cases c') simp_all
    qed
    have c1: "calls w1 = calls w @ [Emit (d_request w)]"
      by (subst eq) (simp add: requested_def)
    have c2: "d_current w1 = Some p"
      by (subst eq) (simp add: requested_def p)
    have c3: "promises w1 = promises w @ [Pending]"
      by (subst eq) (simp add: requested_def)
    have c4: "promise_state w1 p = Pending" and c5: "p < length (promises w1)"
      by (simp_all add: promise_state_def c3 p)
    have c6: "d_waiting w1" by (subst eq) (simp add: requested_def)
    have c7: "\<not> d_done w1" using assms by (subst eq) (simp add: requested_def)
    have c8: "drain_next w1 = Some (Return p, w1)" using c7 c2 by (rule drain_next_pending)
    from handleResponse_settles_holder[OF c6 c2 c4 c5] c1 c2 c4 c8 show ?thesis by blast
  qed
  from a b show ?thesis by blast
qed

theorem next_at_most_one_in_flight_witness:
  "\<not> d_done (new_Drain [] [] ''q'' ''r'') \<and> d_current (new_Drain [] [] ''q'' ''r'') = None \<and>
   drain_next (new_Drain [] [] ''q'' ''r'') = Some (Return 0, requested (new_Drain [] [] ''q'' ''r'')) \<and>
   d_current (requested (new_Drain [] [] ''q'' ''r'')) = Some 0 \<and>
   \<not> d_done (requested (new_Drain [] [] ''q'' ''r'')) \<and>
   drain_next (requested (new_Drain [] [] ''q'' ''r'')) = Some (Return 0, requested (new_Drain [] [] ''q'' ''r'')) \<and>
   calls (requested (new_Drain [] [] ''q'' ''r'')) = [Emit ''q''] \<and>
   promise_state (snd (handleResponse (Obj (DoneValue (JBool False)) (JStr ''a''))
       (requested (new_Drain [] [] ''q'' ''r'')))) 0 = Resolved (Obj (DoneValue (JBool False)) (JStr ''a''))"
proof -
  let ?a = "new_Drain [] [] ''q'' ''r''"
  let ?b = "requested ?a"
  let ?r = "Obj (DoneValue (JBool False)) (JStr ''a'')"
  have h1: "\<not> d_done ?a" and h2: "d_current ?a = None" by (simp_all add: new_Drain_def)
  have h3: "drain_next ?a = Some (Return 0, ?b)"
    using drain_next_no_responder[of ?a] by (simp add: new_Drain_def on_def listeners_for_def)
  have h4: "d_current ?b = Some 0" and h5: "\<not> d_done ?b" and h6: "calls ?b = [Emit ''q'']"
    by (simp_all add: requested_def new_Drain_def)
  have h4': "d_current ?b \<noteq> None" using h4 by simp
  note T1 = next_at_most_one_in_flight[OF h5, of 0 0 ?b]
  note T2 = next_at_most_one_in_flight[OF h1, of 0 0 ?b]
  from T1 h4 have s: "drain_next ?b = Some (Return 0, ?b)" by blast
  from T2 h2 h3 h4' have "\<forall>r. promise_state (snd (handleResponse r ?b)) 0 =
                   (case get_done r of Inl e \<Rightarrow> Rejected e | Inr d \<Rightarrow> Resolved r)" by blast
  then have "promise_state (snd (handleResponse ?r ?b)) 0 =
                   (case get_done ?r of Inl e \<Rightarrow> Rejected e | Inr d \<Rightarrow> Resolved ?r)" by (rule spec)
  then have q: "promise_state (snd (handleResponse ?r ?b)) 0 = Resolved ?r" by simp
  from h1 h2 h3 h4 h5 s h6 q show ?thesis by (intro conjI)
qed

text \<open>
  C2. A response whose \<open>done\<close> property throws \<open>e\<close> when it is read, handled while
  the adapter is waiting: the pending holder (there is one, still pending, in every
  state reached from construction) is rejected with exactly \<open>e\<close>, \<open>handleResponse\<close>
  returns normally instead of throwing, and its only call on the holder is that
  \<open>reject\<close>: the holder is not resolved.
\<close>

theorem getter_error_rejects:
  assumes "exec xs (new_Drain rs vs req resp) = Some w" and "d_waiting w" and "get_done r = Inl e"
  shows "\<exists>h. d_current w = Some h \<and> promise_state w h = Pending \<and>
             handleResponse r w =
               (Return (), (reject h e (w\<lparr>d_waiting := False\<rparr>))\<lparr>d_current := None\<rparr>) \<and>
             calls (snd (handleResponse r w)) = calls w @ [Reject h e] \<and>
             promise_state (snd (handleResponse r w)) h = Rejected e"
proof -
  from assms(1,2) obtain h where h: "d_current w = Some h" "promise_state w h = Pending"
      "h < length (promises w)"
    by (rule reach_holder)
  have eq: "handleResponse r w =
      (Return (), (reject h e (w\<lparr>d_waiting := False\<rparr>))\<lparr>d_current := None\<rparr>)"
    using assms(2) h(1) assms(3) by (rule handleResponse_getter_throws)
  have "promise_state (snd (handleResponse r w)) h = Rejected e"
    using h(2,3) by (simp add: eq reject_def promise_state_def settle_def)
  moreover have "calls (snd (handleResponse r w)) = calls w @ [Reject h e]"
    by (simp add: eq reject_def)
  ultimately show ?thesis using h eq by blast
qed

theorem getter_error_rejects_witness:
  "exec [Next] (new_Drain [] [] ''q'' ''r'') = Some (requested (new_Drain [] [] ''q'' ''r'')) \<and>
   d_waiting (requested (new_Drain [] [] ''q'' ''r'')) \<and>
   get_done (Obj (DoneThrows (Error ''boom!'')) (JStr ''b'')) = Inl (Error ''boom!'') \<and>
   d_current (requested (new_Drain [] [] ''q'' ''r'')) = Some 0 \<and>
   fst (handleResponse (Obj (DoneThrows (Error ''boom!'')) (JStr ''b''))
          (requested (new_Drain [] [] ''q'' ''r''))) = Return () \<and>
   calls (snd (handleResponse (Obj (DoneThrows (Error ''boom!'')) (JStr ''b''))
          (requested (new_Drain [] [] ''q'' ''r'')))) = [Emit ''q'', Reject 0 (Error ''boom!'')] \<and>
   promise_state (snd (handleResponse (Obj (DoneThrows (Error ''boom!'')) (JStr ''b''))
          (requested (new_Drain [] [] ''q'' ''r'')))) 0 = Rejected (Error ''boom!'')"
proof -
  let ?a = "requested (new_Drain [] [] ''q'' ''r'')"
  let ?r = "Obj (DoneThrows (Error ''boom!'')) (JStr ''b'')"
  have h2: "d_waiting ?a" by (simp add: requested_def)
  have h3: "get_done ?r = Inl (Error ''boom!'')" by simp
  have c: "d_current ?a = Some 0" "calls ?a = [Emit ''q'']"
    by (simp_all add: requested_def new_Drain_def)
  from getter_error_rejects[OF example_next h2 h3] c example_next h2 h3 show ?thesis
    by auto
qed

text \<open>
  C3. \<open>handleResponse\<close> called while the adapter is not waiting throws. The message
  of the error starts with the label of \<open>toString\<close>, which embeds the request and
  response event names. Nothing catches the error: when the bus calls the handler,
  the error ends the emit, whatever handlers and emits were still to run.
\<close>

theorem unexpected_response_throws:
  assumes "d_waiting w = False"
  shows "fst (handleResponse r w) =
           Throw (Error (toString w @ '' Was not expecting a response, but got a response'')) \<and>
         toString w = ''<Drain (request: '' @ d_request w @ '' response: '' @ d_response w @ '')>'' \<and>
         dispatch ((BoundHandleResponse # ls, r) # rest) w =
           Some (Throw (Error (toString w @ '' Was not expecting a response, but got a response'')), w)"
  using assms by (simp add: handleResponse_not_waiting dispatch.simps toString_def)

theorem unexpected_response_throws_witness:
  "d_waiting (new_Drain [] [] ''testem:next-module-request'' ''testem:next-module-response'') = False \<and>
   fst (handleResponse (Obj (DoneValue JUndefined) JUndefined)
         (new_Drain [] [] ''testem:next-module-request'' ''testem:next-module-response'')) =
     Throw (Error ''<Drain (request: testem:next-module-request response: testem:next-module-response)> Was not expecting a response, but got a response'') \<and>
   fst (the (emit ''testem:next-module-response'' (Obj (DoneValue JUndefined) JUndefined)
         (new_Drain [] [] ''testem:next-module-request'' ''testem:next-module-response''))) =
     Throw (Error ''<Drain (request: testem:next-module-request response: testem:next-module-response)> Was not expecting a response, but got a response'')"
proof -
  let ?a = "new_Drain [] [] ''testem:next-module-request'' ''testem:next-module-response''"
  have h: "d_waiting ?a = False" by (simp add: new_Drain_def)
  have l: "listeners_for ''testem:next-module-response'' (listeners ?a) = [BoundHandleResponse]"
    by (simp add: new_Drain_def on_def listeners_for_def)
  have t: "toString ?a = ''<Drain (request: testem:next-module-request response: testem:next-module-response)>''"
    by (simp add: toString_def new_Drain_def)
  from unexpected_response_throws[OF h, of "Obj (DoneValue JUndefined) JUndefined" "[]" "[]"] h l t
  show ?thesis by (simp add: emit_def)
qed

text \<open>
  C4. A response whose \<open>done\<close> is truthy, handled while the adapter is waiting and
  with no error: \<open>handleResponse\<close> is \<open>dispose\<close> followed by \<open>resolve\<close>. When the holder
  is resolved \<open>done\<close> is already true, the handler is already unsubscribed and the
  holder is still pending; the holder is resolved with the response object itself.
\<close>

theorem done_response_disposes_then_resolves:
  assumes "exec xs (new_Drain rs vs req resp) = Some w" and "d_waiting w"
      and "get_done r = Inr d" and "truthy d"
  shows "\<exists>h. d_current w = Some h \<and> promise_state w h = Pending \<and>
             handleResponse r w =
               (Return (), (resolve h r (dispose (w\<lparr>d_waiting := False\<rparr>)))\<lparr>d_current := None\<rparr>) \<and>
             calls (snd (handleResponse r w)) = calls w @ [RemoveListener resp, Resolve h r] \<and>
             d_done (dispose (w\<lparr>d_waiting := False\<rparr>)) \<and>
             promise_state (dispose (w\<lparr>d_waiting := False\<rparr>)) h = Pending \<and>
             BoundHandleResponse \<notin> set (listeners_for resp (listeners (dispose (w\<lparr>d_waiting := False\<rparr>)))) \<and>
             d_done (snd (handleResponse r w)) \<and>
             BoundHandleResponse \<notin> set (listeners_for resp (listeners (snd (handleResponse r w)))) \<and>
             promise_state (snd (handleResponse r w)) h = Resolved r"
proof -
  from assms(1,2) obtain h where h: "d_current w = Some h" "promise_state w h = Pending"
      "h < length (promises w)"
    by (rule reach_holder)
  let ?m = "dispose (w\<lparr>d_waiting := False\<rparr>)"
  have eq: "handleResponse r w = (Return (), (resolve h r ?m)\<lparr>d_current := None\<rparr>)"
    using assms(2) h(1) assms(3,4) by (rule handleResponse_done)
  have n: "d_response w = resp" using exec_names[OF assms(1)] by (simp add: new_Drain_def)
  have iw: "invar w" using assms(1) by (rule reach_invar)
  have "invar (snd (handleResponse r w))" using iw by (rule handleResponse_invar)
  moreover have dn: "d_done (snd (handleResponse r w))" by (simp add: eq resolve_def dispose_def)
  ultimately have "BoundHandleResponse \<notin>
      set (listeners_for (d_response (snd (handleResponse r w))) (listeners (snd (handleResponse r w))))"
    by (rule invar_done_unsubscribed)
  then have un: "BoundHandleResponse \<notin> set (listeners_for resp (listeners (snd (handleResponse r w))))"
    using n by (simp add: handleResponse_names)
  have lm: "listeners ?m = listeners (snd (handleResponse r w))"
    by (simp add: eq resolve_def)
  have c: "calls (snd (handleResponse r w)) = calls w @ [RemoveListener resp, Resolve h r]"
    using n by (simp add: eq resolve_def dispose_def)
  have pm: "promise_state ?m h = Pending" using h(2,3) by (simp add: dispose_def promise_state_def)
  have ps: "promise_state (snd (handleResponse r w)) h = Resolved r"
    using h(2,3) by (simp add: eq resolve_def dispose_def promise_state_def settle_def)
  have dm: "d_done ?m" by (simp add: dispose_def)
  show ?thesis using h(1,2) eq c dm pm un lm dn ps by auto
qed

theorem done_response_disposes_then_resolves_witness:
  "exec [Next] (new_Drain [] [] ''q'' ''r'') = Some (requested (new_Drain [] [] ''q'' ''r'')) \<and>
   d_waiting (requested (new_Drain [] [] ''q'' ''r'')) \<and>
   get_done (Obj (DoneValue (JBool True)) JUndefined) = Inr (JBool True) \<and> truthy (JBool True) \<and>
   d_current (requested (new_Drain [] [] ''q'' ''r'')) = Some 0 \<and>
   calls (snd (handleResponse (Obj (DoneValue (JBool True)) JUndefined)
          (requested (new_Drain [] [] ''q'' ''r'')))) =
     [Emit ''q'', RemoveListener ''r'', Resolve 0 (Obj (DoneValue (JBool True)) JUndefined)] \<and>
   d_done (snd (handleResponse (Obj (DoneValue (JBool True)) JUndefined)
          (requested (new_Drain [] [] ''q'' ''r'')))) \<and>
   promise_state (snd (handleResponse (Obj (DoneValue (JBool True)) JUndefined)
          (requested (new_Drain [] [] ''q'' ''r'')))) 0 = Resolved (Obj (DoneValue (JBool True)) JUndefined)"
proof -
  let ?a = "requested (new_Drain [] [] ''q'' ''r'')"
  let ?r = "Obj (DoneValue (JBool True)) JUndefined"
  have h2: "d_waiting ?a" by (simp add: requested_def)
  have h3: "get_done ?r = Inr (JBool True)" by simp
  have h4: "truthy (JBool True)" by simp
  have c: "d_current ?a = Some 0" "calls ?a = [Emit ''q'']"
    by (simp_all add: requested_def new_Drain_def)
  from done_response_disposes_then_resolves[OF example_next h2 h3 h4] c example_next h2 h3 h4
  show ?thesis by auto
qed

text \<open>
  C5. Once \<open>done\<close> is true, every call of \<open>next\<close> returns a promise already resolved
  with \<open>{done: true, value: null}\<close> and touches nothing but the promise store: after
  any number \<open>n\<close> of such calls one more still does, and the adapter's calls on the
  bus, the registrations on the bus and the responder's state are as they were
  before the first call.
\<close>

theorem next_after_done:
  assumes "d_done w"
  shows "exec (replicate n Next) w =
           Some (w\<lparr>promises := promises w @ replicate n (Resolved (Obj (DoneValue (JBool True)) JNull))\<rparr>) \<and>
         await_next (w\<lparr>promises := promises w @ replicate n (Resolved (Obj (DoneValue (JBool True)) JNull))\<rparr>) =
           Some (Return (Obj (DoneValue (JBool True)) JNull),
                 w\<lparr>promises := promises w @ replicate (Suc n) (Resolved (Obj (DoneValue (JBool True)) JNull))\<rparr>) \<and>
         calls (w\<lparr>promises := promises w @ replicate (Suc n) (Resolved (Obj (DoneValue (JBool True)) JNull))\<rparr>) = calls w \<and>
         listeners (w\<lparr>promises := promises w @ replicate (Suc n) (Resolved (Obj (DoneValue (JBool True)) JNull))\<rparr>) = listeners w \<and>
         responses (w\<lparr>promises := promises w @ replicate (Suc n) (Resolved (Obj (DoneValue (JBool True)) JNull))\<rparr>) = responses w"
proof -
  let ?t = "Resolved (Obj (DoneValue (JBool True)) JNull)"
  let ?b = "w\<lparr>promises := promises w @ replicate n ?t\<rparr>"
  have d: "d_done ?b" using assms by simp
  let ?ps = "promises w @ replicate n ?t"
  have dn: "drain_next ?b = Some (Return (length ?ps), w\<lparr>promises := ?ps @ [?t]\<rparr>)"
    using drain_next_done[OF d] by simp
  have ps: "promise_state (w\<lparr>promises := ?ps @ [?t]\<rparr>) (length ?ps) = ?t"
    by (rule promise_state_fresh)
  have e: "?ps @ [?t] = promises w @ replicate (Suc n) ?t"
    by (simp add: replicate_append_same)
  have "await_next ?b = Some (Return (Obj (DoneValue (JBool True)) JNull), w\<lparr>promises := ?ps @ [?t]\<rparr>)"
    unfolding await_next_def dn by (simp only: option.case prod.case completion.case ps pstate.case)
  then have "await_next ?b = Some (Return (Obj (DoneValue (JBool True)) JNull),
          w\<lparr>promises := promises w @ replicate (Suc n) ?t\<rparr>)"
    by (simp only: e)
  with exec_next_done[OF assms, of n] show ?thesis by simp
qed

theorem next_after_done_witness:
  "d_done (dispose (new_Drain [] [] ''q'' ''r'')) \<and>
   exec [Next, Next] (dispose (new_Drain [] [] ''q'' ''r'')) =
     Some ((dispose (new_Drain [] [] ''q'' ''r''))
            \<lparr>promises := [Resolved (Obj (DoneValue (JBool True)) JNull),
                          Resolved (Obj (DoneValue (JBool True)) JNull)]\<rparr>) \<and>
   await_next ((dispose (new_Drain [] [] ''q'' ''r''))
            \<lparr>promises := [Resolved (Obj (DoneValue (JBool True)) JNull),
                          Resolved (Obj (DoneValue (JBool True)) JNull)]\<rparr>) =
     Some (Return (Obj (DoneValue (JBool True)) JNull),
           (dispose (new_Drain [] [] ''q'' ''r''))
            \<lparr>promises := [Resolved (Obj (DoneValue (JBool True)) JNull),
                          Resolved (Obj (DoneValue (JBool True)) JNull),
                          Resolved (Obj (DoneValue (JBool True)) JNull)]\<rparr>)"
proof -
  let ?a = "dispose (new_Drain [] [] ''q'' ''r'')"
  have h: "d_done ?a" by (simp add: dispose_def)
  have p: "promises ?a = []" by (simp add: dispose_def new_Drain_def)
  have n: "replicate 2 Next = [Next, Next]" by (simp add: numeral_2_eq_2)
  from next_after_done[OF h, of 2] h p n show ?thesis by (simp add: numeral_2_eq_2)
qed

text \<open>
  C6. Happy-path draining: with the responder of src/test.js answering each request
  synchronously from \<open>["a", "b", "c"]\<close>, the consumer loop returns exactly
  \<open>["a", "b", "c"]\<close>; then \<open>done\<close> is true and nothing is subscribed to the response
  event.
\<close>

theorem happy_path_drains:
  "\<exists>w. asyncDrain happy_path = Some (Return [JStr ''a'', JStr ''b'', JStr ''c''], w) \<and>
       d_done w \<and> listenerCount ''testem:next-module-response'' (listeners w) = 0"
proof -
  have "serving ''testem:next-module-request'' ''testem:next-module-response'' happy_path"
    unfolding happy_path_def by (rule serving_new_Drain) simp
  from asyncDrain_serving[OF this] show ?thesis
    by (simp add: happy_path_def new_Drain_def)
qed

text \<open>
  C7. Whenever \<open>handleResponse\<close> passes its waiting check, in a state reached from
  construction, it makes exactly one settling call on the pending holder: \<open>reject\<close>
  when reading \<open>done\<close> threw, \<open>resolve\<close> otherwise, never both and never neither;
  afterwards the holder reference is cleared, whichever of the two happened.
\<close>

theorem handleResponse_settles_exactly_once:
  assumes "exec xs (new_Drain rs vs req resp) = Some w" and "d_waiting w"
  shows "\<exists>h. d_current w = Some h \<and>
             fst (handleResponse r w) = Return () \<and>
             filter is_settle (calls (snd (handleResponse r w))) =
               filter is_settle (calls w) @
                 [case get_done r of Inl e \<Rightarrow> Reject h e | Inr d \<Rightarrow> Resolve h r] \<and>
             d_current (snd (handleResponse r w)) = None \<and>
             d_waiting (snd (handleResponse r w)) = False"
proof -
  from assms(1,2) obtain h where h: "d_current w = Some h" "promise_state w h = Pending"
      "h < length (promises w)"
    by (rule reach_holder)
  show ?thesis
  proof (cases "get_done r")
    case (Inl e)
    from handleResponse_getter_throws[OF assms(2) h(1) Inl] h(1) Inl show ?thesis
      by (simp add: reject_def is_settle_def)
  next
    case (Inr d)
    show ?thesis
    proof (cases "truthy d")
      case True
      from handleResponse_done[OF assms(2) h(1) Inr True] h(1) Inr show ?thesis
        by (simp add: resolve_def dispose_def is_settle_def)
    next
      case False
      from handleResponse_more[OF assms(2) h(1) Inr False] h(1) Inr show ?thesis
        by (simp add: resolve_def is_settle_def)
    qed
  qed
qed

theorem handleResponse_settles_exactly_once_witness:
  "exec [Next] (new_Drain [] [] ''q'' ''r'') = Some (requested (new_Drain [] [] ''q'' ''r'')) \<and>
   d_waiting (requested (new_Drain [] [] ''q'' ''r'')) \<and>
   d_current (requested (new_Drain [] [] ''q'' ''r'')) = Some 0 \<and>
   filter is_settle (calls (snd (handleResponse (Obj (DoneValue (JBool False)) (JStr ''a''))
          (requested (new_Drain [] [] ''q'' ''r''))))) =
     [Resolve 0 (Obj (DoneValue (JBool False)) (JStr ''a''))] \<and>
   d_current (snd (handleResponse (Obj (DoneValue (JBool False)) (JStr ''a''))
          (requested (new_Drain [] [] ''q'' ''r'')))) = None"
proof -
  let ?a = "requested (new_Drain [] [] ''q'' ''r'')"
  have h2: "d_waiting ?a" by (simp add: requested_def)
  have c: "d_current ?a = Some 0" "filter is_settle (calls ?a) = []"
    by (simp_all add: requested_def new_Drain_def is_settle_def)
  from handleResponse_settles_exactly_once[OF example_next h2, of "Obj (DoneValue (JBool False)) (JStr ''a'')"]
    c example_next h2
  show ?thesis by auto
qed

text \<open>
  C8. The \<open>done\<close> flag is monotonic. Take any state \<open>w\<close> that a client reaches from
  construction by calls of \<open>next\<close>, \<open>handleResponse\<close> and \<open>dispose\<close> (and emits on the
  bus) and in which \<open>done\<close> is true, and any further calls leading to \<open>w'\<close>: \<open>done\<close>
  is still true in \<open>w'\<close>, the adapter has emitted nothing in between, and its handler
  is not subscribed to the response event, neither in \<open>w\<close> nor in \<open>w'\<close>.
\<close>

theorem done_monotonic:
  assumes "exec xs (new_Drain rs vs req resp) = Some w" and "d_done w" and "exec ys w = Some w'"
  shows "d_done w' \<and>
         filter is_Emit (calls w') = filter is_Emit (calls w) \<and>
         BoundHandleResponse \<notin> set (listeners_for resp (listeners w)) \<and>
         BoundHandleResponse \<notin> set (listeners_for resp (listeners w'))"
proof -
  have iw: "invar w" using assms(1) by (rule reach_invar)
  have iw': "invar w'" using assms(3) iw by (rule exec_invar)
  have d: "d_done w'" and e: "filter is_Emit (calls w') = filter is_Emit (calls w)"
    using exec_done[OF assms(3) assms(2)] by simp_all
  have n: "d_response w = resp" using exec_names[OF assms(1)] by (simp add: new_Drain_def)
  have n': "d_response w' = resp" using exec_names[OF assms(3)] n by simp
  from invar_done_unsubscribed[OF iw assms(2)] invar_done_unsubscribed[OF iw' d] d e n n'
  show ?thesis by simp
qed

theorem done_monotonic_witness:
  "exec [Dispose] (new_Drain [] [] ''q'' ''r'') = Some (dispose (new_Drain [] [] ''q'' ''r'')) \<and>
   d_done (dispose (new_Drain [] [] ''q'' ''r'')) \<and>
   exec [Next, HandleResponse (Obj (DoneValue (JBool False)) JNull)] (dispose (new_Drain [] [] ''q'' ''r''))
     = Some ((dispose (new_Drain [] [] ''q'' ''r''))
              \<lparr>promises := [Resolved (Obj (DoneValue (JBool True)) JNull)]\<rparr>) \<and>
   d_done ((dispose (new_Drain [] [] ''q'' ''r''))
              \<lparr>promises := [Resolved (Obj (DoneValue (JBool True)) JNull)]\<rparr>) \<and>
   filter is_Emit (calls ((dispose (new_Drain [] [] ''q'' ''r''))
              \<lparr>promises := [Resolved (Obj (DoneValue (JBool True)) JNull)]\<rparr>)) = [] \<and>
   BoundHandleResponse \<notin> set (listeners_for ''r'' (listeners (dispose (new_Drain [] [] ''q'' ''r''))))"
proof -
  let ?a = "new_Drain [] [] ''q'' ''r''"
  let ?b = "dispose ?a"
  let ?c = "?b\<lparr>promises := [Resolved (Obj (DoneValue (JBool True)) JNull)]\<rparr>"
  have h1: "exec [Dispose] ?a = Some ?b" by simp
  have h2: "d_done ?b" by (simp add: dispose_def)
  have h3: "exec [Next, HandleResponse (Obj (DoneValue (JBool False)) JNull)] ?b = Some ?c"
    by (simp add: drain_next_def Promise_resolve_def handleResponse_def dispose_def new_Drain_def)
  from done_monotonic[OF h1 h2 h3] h1 h2 h3 show ?thesis
    by (simp add: dispose_def new_Drain_def is_Emit_def)
qed

text \<open>
  C9. \<open>dispose\<close> never settles a holder. In every state it sets \<open>done\<close>, removes one
  registration of the adapter's handler from the response event, and leaves the
  holder reference and every promise as they were; its only call is
  \<open>removeListener\<close>. Calling it again changes none of this. In a state reached from
  construction the handler is then not subscribed at all, and a second \<open>dispose\<close>
  leaves the registrations alone.
\<close>

theorem dispose_never_settles:
  "d_done (dispose w) \<and>
   d_current (dispose w) = d_current w \<and>
   d_waiting (dispose w) = d_waiting w \<and>
   promises (dispose w) = promises w \<and>
   promise_state (dispose w) h = promise_state w h \<and>
   calls (dispose w) = calls w @ [RemoveListener (d_response w)] \<and>
   listeners (dispose w) = removeListener (d_response w) BoundHandleResponse (listeners w) \<and>
   count_list (listeners (dispose w)) (d_response w, BoundHandleResponse) =
     count_list (listeners w) (d_response w, BoundHandleResponse) - 1 \<and>
   d_done (dispose (dispose w)) \<and>
   d_current (dispose (dispose w)) = d_current w \<and>
   promises (dispose (dispose w)) = promises w \<and>
   filter is_settle (calls (dispose (dispose w))) = filter is_settle (calls w) \<and>
   (exec xs (new_Drain rs vs req resp) = Some w \<longrightarrow>
      BoundHandleResponse \<notin> set (listeners_for resp (listeners (dispose w))) \<and>
      listeners (dispose (dispose w)) = listeners (dispose w))"
proof -
  have reach: "BoundHandleResponse \<notin> set (listeners_for resp (listeners (dispose w))) \<and>
      listeners (dispose (dispose w)) = listeners (dispose w)"
    if a: "exec xs (new_Drain rs vs req resp) = Some w"
  proof -
    have n: "d_response w = resp" using exec_names[OF a] by (simp add: new_Drain_def)
    have "invar w" using a by (rule reach_invar)
    then have i: "invar (dispose w)" by (rule dispose_invar)
    have d: "d_done (dispose w)" by (simp add: dispose_def)
    have r: "d_response (dispose w) = resp" using n by (simp add: dispose_def)
    from i d have c: "count_list (listeners (dispose w)) (resp, BoundHandleResponse) = 0"
      using r by (simp add: invar_def)
    then have ni: "(resp, BoundHandleResponse) \<notin> set (listeners (dispose w))"
      by (simp add: count_list_0_iff)
    have "listeners (dispose (dispose w)) =
          removeListener resp BoundHandleResponse (listeners (dispose w))"
      using r by (simp add: dispose_def)
    with ni have "listeners (dispose (dispose w)) = listeners (dispose w)"
      by (simp add: removeListener_absent)
    moreover from invar_done_unsubscribed[OF i d] r
    have "BoundHandleResponse \<notin> set (listeners_for resp (listeners (dispose w)))" by simp
    ultimately show ?thesis by simp
  qed
  have "count_list (listeners (dispose w)) (d_response w, BoundHandleResponse) =
     count_list (listeners w) (d_response w, BoundHandleResponse) - 1"
    by (simp add: dispose_def count_removeListener)
  with reach show ?thesis
    by (simp add: dispose_def promise_state_def is_settle_def)
qed

theorem dispose_never_settles_witness:
  "exec [Next] (new_Drain [] [] ''q'' ''r'') = Some (requested (new_Drain [] [] ''q'' ''r'')) \<and>
   d_current (dispose (requested (new_Drain [] [] ''q'' ''r''))) = Some 0 \<and>
   promise_state (dispose (requested (new_Drain [] [] ''q'' ''r''))) 0 = Pending \<and>
   d_done (dispose (requested (new_Drain [] [] ''q'' ''r''))) \<and>
   listenerCount ''r'' (listeners (requested (new_Drain [] [] ''q'' ''r''))) = 1 \<and>
   listenerCount ''r'' (listeners (dispose (requested (new_Drain [] [] ''q'' ''r'')))) = 0 \<and>
   BoundHandleResponse \<notin> set (listeners_for ''r'' (listeners (dispose (requested (new_Drain [] [] ''q'' ''r'')))))"
proof -
  let ?a = "requested (new_Drain [] [] ''q'' ''r'')"
  have c: "d_current ?a = Some 0" "promise_state ?a 0 = Pending"
      "listenerCount ''r'' (listeners ?a) = 1" "listenerCount ''r'' (listeners (dispose ?a)) = 0"
    by (simp_all add: requested_def new_Drain_def promise_state_def listenerCount_def
        listeners_for_def on_def dispose_def removeListener_def)
  note T = dispose_never_settles[of ?a 0 "[Next]" "[]" "[]" "''q''" "''r''"]
  from T have d: "d_done (dispose ?a)" by blast
  from T c(1) have cur: "d_current (dispose ?a) = Some 0" by simp
  from T c(2) have p: "promise_state (dispose ?a) 0 = Pending" by simp
  from T example_next
  have u: "BoundHandleResponse \<notin> set (listeners_for ''r'' (listeners (dispose ?a)))" by blast
  from example_next cur p d c(3,4) u show ?thesis by (intro conjI)
qed

text \<open>
  C10. The protocol-violation throw is atomic: the state after it is the state before
  it, in every field, so whatever the client does next behaves as if the call had
  not been made. In particular, on an idle adapter whose request event has no
  synchronous responder, the next \<open>next\<close> emits its request and the response that
  follows resolves its promise.
\<close>

theorem unexpected_response_atomic:
  assumes "d_waiting w = False"
  shows "snd (handleResponse r w) = w \<and>
         fst (handleResponse r w) \<noteq> Return () \<and>
         exec ys (snd (handleResponse r w)) = exec ys w \<and>
         (\<not> d_done w \<and> d_current w = None \<and> listeners_for (d_request w) (listeners w) = [] \<and>
          get_done r' = Inr d \<longrightarrow>
            drain_next (snd (handleResponse r w)) = Some (Return (length (promises w)), requested w) \<and>
            promise_state (requested w) (length (promises w)) = Pending \<and>
            fst (handleResponse r' (requested w)) = Return () \<and>
            promise_state (snd (handleResponse r' (requested w))) (length (promises w)) = Resolved r')"
proof -
  have eq: "handleResponse r w =
      (Throw (Error (toString w @ '' Was not expecting a response, but got a response'')), w)"
    using assms by (simp add: handleResponse_not_waiting)
  have cyc: "drain_next w = Some (Return (length (promises w)), requested w) \<and>
            promise_state (requested w) (length (promises w)) = Pending \<and>
            fst (handleResponse r' (requested w)) = Return () \<and>
            promise_state (snd (handleResponse r' (requested w))) (length (promises w)) = Resolved r'"
    if a: "\<not> d_done w" "d_current w = None" "listeners_for (d_request w) (listeners w) = []"
      "get_done r' = Inr d"
  proof -
    have wt: "d_waiting (requested w)" and cur: "d_current (requested w) = Some (length (promises w))"
      by (simp_all add: requested_def)
    have p: "promise_state (requested w) (length (promises w)) = Pending"
      by (simp add: requested_def promise_state_def)
    have hr: "fst (handleResponse r' (requested w)) = Return () \<and>
        promise_state (snd (handleResponse r' (requested w))) (length (promises w)) = Resolved r'"
    proof (cases "truthy d")
      case True
      from handleResponse_done[OF wt cur a(4) True] show ?thesis
        by (simp add: resolve_def dispose_def requested_def promise_state_def settle_def)
    next
      case False
      from handleResponse_more[OF wt cur a(4) False] show ?thesis
        by (simp add: resolve_def requested_def promise_state_def settle_def)
    qed
    from drain_next_no_responder[OF a(1,2,3)] p hr show ?thesis by simp
  qed
  from eq cyc show ?thesis by simp
qed

theorem unexpected_response_atomic_witness:
  "d_waiting (new_Drain [] [] ''q'' ''r'') = False \<and>
   snd (handleResponse (Obj (DoneValue JUndefined) JUndefined) (new_Drain [] [] ''q'' ''r''))
     = new_Drain [] [] ''q'' ''r'' \<and>
   \<not> d_done (new_Drain [] [] ''q'' ''r'') \<and> d_current (new_Drain [] [] ''q'' ''r'') = None \<and>
   listeners_for ''q'' (listeners (new_Drain [] [] ''q'' ''r'')) = [] \<and>
   get_done (Obj (DoneValue JUndefined) JUndefined) = Inr JUndefined \<and>
   drain_next (snd (handleResponse (Obj (DoneValue JUndefined) JUndefined) (new_Drain [] [] ''q'' ''r'')))
     = Some (Return 0, requested (new_Drain [] [] ''q'' ''r'')) \<and>
   fst (handleResponse (Obj (DoneValue JUndefined) JUndefined) (requested (new_Drain [] [] ''q'' ''r'')))
     = Return () \<and>
   promise_state (snd (handleResponse (Obj (DoneValue JUndefined) JUndefined)
       (requested (new_Drain [] [] ''q'' ''r'')))) 0 = Resolved (Obj (DoneValue JUndefined) JUndefined)"
proof -
  let ?a = "new_Drain [] [] ''q'' ''r''"
  let ?r = "Obj (DoneValue JUndefined) JUndefined"
  have h: "d_waiting ?a = False" by (simp add: new_Drain_def)
  have g: "\<not> d_done ?a" "d_current ?a = None" "listeners_for (d_request ?a) (listeners ?a) = []"
      "get_done ?r = Inr JUndefined" "promises ?a = []" "d_request ?a = ''q''"
    by (simp_all add: new_Drain_def on_def listeners_for_def)
  note T = unexpected_response_atomic[OF h, of ?r "[]" ?r JUndefined]
  from T have s: "snd (handleResponse ?r ?a) = ?a" by blast
  from T g have c: "drain_next (snd (handleResponse ?r ?a)) = Some (Return 0, requested ?a)"
      "fst (handleResponse ?r (requested ?a)) = Return ()"
      "promise_state (snd (handleResponse ?r (requested ?a))) 0 = Resolved ?r"
    by auto
  have l: "listeners_for ''q'' (listeners ?a) = []"
    by (simp add: new_Drain_def on_def listeners_for_def)
  from s c h g(1,2,4) l show ?thesis by (intro conjI)
qed

end
